theory Spec2Isabelle
  imports Main "HOL-Library.Log_Nat" "HOL-Library.Word"
begin

section \<open>JavaScript numbers\<close>

text \<open>
  Every arithmetic value of \<^verbatim>\<open>src/services/imageService.ts\<close> is a JavaScript
  \<^verbatim>\<open>number\<close>, an IEEE 754 binary64 value. A finite binary64 value is modelled by
  the rational it denotes, and each arithmetic operator by the exact operation followed
  by rounding to the nearest value with a 53-bit significand, ties to even (\<open>fl\<close>).
  The exponent is not bounded in the model: every value the program computes lies
  between \<open>2 powi -53\<close> and \<open>2 ^ 64\<close> or is zero, far inside the normal range of
  binary64, where the model and the format agree.
\<close>

definition expo :: "rat \<Rightarrow> int" where
  \<comment> \<open>the binary exponent of a nonzero value: \<open>2 powi expo x \<le> \<bar>x\<bar> < 2 powi (expo x + 1)\<close>\<close>
  "expo x = (let (p, q) = quotient_of \<bar>x\<bar>; d = bitlen p - bitlen q
             in if 2 powi d \<le> \<bar>x\<bar> then d else d - 1)"

definition round_even :: "rat \<Rightarrow> int" where
  \<comment> \<open>nearest integer, a tie going to the even neighbour\<close>
  "round_even y = (let n = \<lfloor>y\<rfloor>; r = y - of_int n
                   in if r < 1 / 2 then n else if 1 / 2 < r then n + 1
                      else if even n then n else n + 1)"

definition fl :: "rat \<Rightarrow> rat" where
  \<comment> \<open>rounding to binary64: 53 significant bits, one unit in the last place is
      \<open>2 powi (expo x - 52)\<close>\<close>
  "fl x = (if x = 0 then 0
           else let s = 2 powi (expo x - 52) in of_int (round_even (x / s)) * s)"

text \<open>
  The size window is supplied by the caller as two \<^verbatim>\<open>number\<close>s, which may also be
  infinite or \<^verbatim>\<open>NaN\<close>. The program only compares them
  (\<^verbatim>\<open>sizeKB > maxSizeKB\<close>, \<^verbatim>\<open>sizeKB < minSizeKB\<close>) and prints them in the error
  message.
\<close>

datatype number = Finite rat | PosInfinity | NegInfinity | NaN

fun js_lt :: "number \<Rightarrow> number \<Rightarrow> bool" where
  "js_lt NaN _ = False"
| "js_lt _ NaN = False"
| "js_lt (Finite x) (Finite y) = (x < y)"
| "js_lt (Finite x) PosInfinity = True"
| "js_lt (Finite x) NegInfinity = False"
| "js_lt PosInfinity _ = False"
| "js_lt NegInfinity NegInfinity = False"
| "js_lt NegInfinity _ = True"

definition js_gt :: "number \<Rightarrow> number \<Rightarrow> bool" where
  "js_gt a b = js_lt b a"

fun js_le :: "number \<Rightarrow> number \<Rightarrow> bool" where
  "js_le NaN _ = False"
| "js_le _ NaN = False"
| "js_le a b = (\<not> js_lt b a)"

section \<open>The browser interface\<close>

text \<open>
  \<^verbatim>\<open>img.width\<close>, \<^verbatim>\<open>img.height\<close>, \<^verbatim>\<open>canvas.width\<close> and \<^verbatim>\<open>canvas.height\<close> are
  \<^verbatim>\<open>unsigned long\<close> attributes: 32-bit words. The pixels are left abstract.
\<close>

record 'p image =
  img_width :: "32 word"
  img_height :: "32 word"
  bitmap :: 'p

record 'p canvas =
  canvas_width :: "32 word"
  canvas_height :: "32 word"
  drawn :: "'p image \<times> rat \<times> rat"
    \<comment> \<open>\<^verbatim>\<open>ctx.drawImage(img, 0, 0, width, height)\<close>\<close>

text \<open>
  What the program asks of the browser. \<open>readAsDataURL\<close> is the \<^verbatim>\<open>FileReader\<close> on the
  input file (\<open>None\<close>: \<^verbatim>\<open>reader.onerror\<close>), \<open>loadImage\<close> the decoding started by
  \<^verbatim>\<open>img.src = ...\<close> (\<open>None\<close>: \<^verbatim>\<open>img.onerror\<close>), \<open>getContext\<close> whether
  \<^verbatim>\<open>canvas.getContext('2d')\<close> is non-null, \<open>toBlob\<close> the JPEG encoder
  \<^verbatim>\<open>canvas.toBlob(cb, 'image/jpeg', quality)\<close> (\<open>None\<close>: a null blob), \<open>blob_size\<close>
  the blob's size in bytes, \<open>blob_dataURL\<close> the \<^verbatim>\<open>FileReader\<close> on the blob, and
  \<open>toString\<close> the conversion of a number inside a template string. The encoder is a
  function of the canvas and the quality; within one run no quality is encoded twice
  (the qualities decrease strictly), so this fixes nothing about an encoder whose output
  would vary between calls.
\<close>

record ('f, 'p, 'b) browser =
  readAsDataURL :: "'f \<Rightarrow> string option"
  loadImage :: "string \<Rightarrow> 'p image option"
  getContext :: bool
  toBlob :: "'p canvas \<Rightarrow> rat \<Rightarrow> 'b option"
  blob_size :: "'b \<Rightarrow> nat"
  blob_dataURL :: "'b \<Rightarrow> string"
  toString :: "number \<Rightarrow> string"

text \<open>What the promise is rejected with: the two error events, or an \<^verbatim>\<open>Error\<close> object.\<close>

datatype rejection = ReaderErrorEvent | ImageErrorEvent | Error string

section \<open>The resize step (lines 26 to 43)\<close>

definition MAX_WIDTH :: rat where
  "MAX_WIDTH = 1024"

definition MAX_HEIGHT :: rat where
  "MAX_HEIGHT = 1024"

definition to_number :: "32 word \<Rightarrow> rat" where
  \<comment> \<open>reading an \<^verbatim>\<open>unsigned long\<close> attribute as a number; exact, as it is below \<open>2 ^ 53\<close>\<close>
  "to_number w = rat_of_nat (unat w)"

definition resize :: "32 word \<Rightarrow> 32 word \<Rightarrow> rat \<times> rat" where
  \<comment> \<open>the values of \<^verbatim>\<open>width\<close> and \<^verbatim>\<open>height\<close> at line 42\<close>
  "resize w h =
     (let width = to_number w; height = to_number h in
      if width > height then
        (if width > MAX_WIDTH then (MAX_WIDTH, fl (height * fl (MAX_WIDTH / width)))
         else (width, height))
      else
        (if height > MAX_HEIGHT then (fl (width * fl (MAX_HEIGHT / height)), MAX_HEIGHT)
         else (width, height)))"

definition to_uint32 :: "rat \<Rightarrow> 32 word" where
  \<comment> \<open>storing a number into an \<^verbatim>\<open>unsigned long\<close> attribute: truncate, then wrap\<close>
  "to_uint32 x = word_of_int (if 0 \<le> x then \<lfloor>x\<rfloor> else \<lceil>x\<rceil>)"

definition make_canvas :: "'p image \<Rightarrow> 'p canvas" where
  \<comment> \<open>the canvas after lines 42 to 44\<close>
  "make_canvas img =
     (let (width, height) = resize (img_width img) (img_height img) in
      \<lparr>canvas_width = to_uint32 width, canvas_height = to_uint32 height,
       drawn = (img, width, height)\<rparr>)"

section \<open>The search loop (lines 47 to 86)\<close>

definition size_message :: "('f, 'p, 'b) browser \<Rightarrow> number \<Rightarrow> number \<Rightarrow> string" where
  "size_message B minSizeKB maxSizeKB =
     ''Could not compress image to be between '' @ toString B minSizeKB @ ''KB and ''
       @ toString B maxSizeKB @ ''KB. Please try a different image.''"

definition sizeKB :: "('f, 'p, 'b) browser \<Rightarrow> 'b \<Rightarrow> number" where
  \<comment> \<open>\<^verbatim>\<open>blob.size / 1024\<close>\<close>
  "sizeKB B blob = Finite (fl (fl (rat_of_nat (blob_size B blob)) / 1024))"

definition lower :: "rat \<Rightarrow> rat" where
  \<comment> \<open>\<^verbatim>\<open>quality - 0.1\<close>\<close>
  "lower quality = fl (quality - fl (1 / 10))"

datatype branch = TooLarge | TooSmall | WithinRange

definition branch_of :: "number \<Rightarrow> number \<Rightarrow> number \<Rightarrow> branch" where
  \<comment> \<open>the \<^verbatim>\<open>if\<close> chain of lines 60 to 78\<close>
  "branch_of kb minSizeKB maxSizeKB =
     (if js_gt kb maxSizeKB then TooLarge
      else if js_lt kb minSizeKB then TooSmall
      else WithinRange)"

text \<open>
  The result of a run is what the promise settles with (\<open>Inl\<close>: rejected, \<open>Inr\<close>:
  resolved with a data URL), together with the list of the qualities handed to
  \<^verbatim>\<open>canvas.toBlob\<close>, in the order of the calls.
\<close>

type_synonym run = "(rejection + string) \<times> rat list"

function tryCompress ::
  "('f, 'p, 'b) browser \<Rightarrow> 'p canvas \<Rightarrow> number \<Rightarrow> number \<Rightarrow> rat \<Rightarrow> int \<Rightarrow> run" where
  "tryCompress B canvas minSizeKB maxSizeKB quality attempts =
     (if attempts \<le> 0 then (Inl (Error (size_message B minSizeKB maxSizeKB)), [])
      else case toBlob B canvas quality of
        None \<Rightarrow> (Inl (Error ''Canvas to Blob conversion failed.''), [quality])
      | Some blob \<Rightarrow>
          (case branch_of (sizeKB B blob) minSizeKB maxSizeKB of
             TooLarge \<Rightarrow>
               apsnd ((#) quality)
                 (tryCompress B canvas minSizeKB maxSizeKB (lower quality) (attempts - 1))
           | TooSmall \<Rightarrow> (Inr (blob_dataURL B blob), [quality])
           | WithinRange \<Rightarrow> (Inr (blob_dataURL B blob), [quality])))"
  by pat_completeness auto
termination
  by (relation "measure (\<lambda>(B, canvas, minSizeKB, maxSizeKB, quality, attempts). nat attempts)")
    auto

section \<open>compressImage\<close>

definition compressImage ::
  "('f, 'p, 'b) browser \<Rightarrow> 'f \<Rightarrow> number \<Rightarrow> number \<Rightarrow> run" where
  "compressImage B file minSizeKB maxSizeKB =
     (case readAsDataURL B file of
        None \<Rightarrow> (Inl ReaderErrorEvent, [])
      | Some url \<Rightarrow>
          (case loadImage B url of
             None \<Rightarrow> (Inl ImageErrorEvent, [])
           | Some img \<Rightarrow>
               if \<not> getContext B then (Inl (Error ''Could not get canvas context''), [])
               else tryCompress B (make_canvas img) minSizeKB maxSizeKB (fl (9 / 10)) 10))"

section \<open>Notions used in the theorems\<close>

text \<open>
  The qualities of successive attempts: \<^verbatim>\<open>tryCompress(0.9, 10)\<close> at line 86, and
  \<^verbatim>\<open>quality - 0.1\<close> at each retry (line 62).
\<close>

definition quality_at :: "nat \<Rightarrow> rat" where
  "quality_at k = (lower ^^ k) (fl (9 / 10))"

fun qualities :: "rat \<Rightarrow> nat \<Rightarrow> rat list" where
  "qualities q 0 = []"
| "qualities q (Suc n) = q # qualities (lower q) n"

definition too_large :: "('f, 'p, 'b) browser \<Rightarrow> 'p canvas \<Rightarrow> number \<Rightarrow> rat \<Rightarrow> bool" where
  \<comment> \<open>the encoder yields a blob at this quality, and line 60 finds it too large\<close>
  "too_large B canvas maxSizeKB quality =
     (case toBlob B canvas quality of
        None \<Rightarrow> False
      | Some blob \<Rightarrow> js_gt (sizeKB B blob) maxSizeKB)"

text \<open>
  A browser to run the program on: every file decodes to a 2000 by 1000 image, and the
  encoder yields \<open>base\<close> bytes plus 100 KB times the quality.
\<close>

definition example_image :: "unit image" where
  "example_image = \<lparr>img_width = 2000, img_height = 1000, bitmap = ()\<rparr>"

definition example_toString :: "number \<Rightarrow> string" where
  "example_toString n =
     (if n = Finite 20 then ''20'' else if n = Finite 40 then ''40''
      else if n = Finite 50 then ''50'' else ''?'')"

definition example_browser :: "nat \<Rightarrow> (unit, unit, nat) browser" where
  "example_browser base =
     \<lparr>readAsDataURL = (\<lambda>file. Some ''data:image/png;base64,iVBORw0KGgo=''),
      loadImage = (\<lambda>url. Some example_image),
      getContext = True,
      toBlob = (\<lambda>canvas quality. Some (base + nat \<lfloor>quality * 102400\<rfloor>)),
      blob_size = (\<lambda>blob. blob),
      blob_dataURL =
        (\<lambda>blob. if blob \<le> 51200 then ''data:image/jpeg;base64,c21hbGw=''
                else ''data:image/jpeg;base64,bGFyZ2U=''),
      toString = example_toString\<rparr>"

section \<open>Rounding\<close>

lemma round_even_cases:
  "round_even y = \<lfloor>y\<rfloor> \<or> round_even y = \<lfloor>y\<rfloor> + 1 \<and> of_int \<lfloor>y\<rfloor> < y"
  by (auto simp: round_even_def Let_def)

lemma round_even_of_int: "round_even (of_int n) = n"
  by (simp add: round_even_def)

lemma round_even_le: "y \<le> of_int n \<Longrightarrow> round_even y \<le> n"
  using round_even_cases [of y] by (auto simp: floor_le_iff)

lemma round_even_ge: "of_int n \<le> y \<Longrightarrow> n \<le> round_even y"
proof -
  assume "of_int n \<le> y"
  then have "n \<le> \<lfloor>y\<rfloor>" by (simp add: le_floor_iff)
  then show ?thesis using round_even_cases [of y] by auto
qed

lemma round_even_error: "\<bar>of_int (round_even y) - y\<bar> \<le> 1 / 2"
  using floor_correct [of y] unfolding round_even_def Let_def by (auto split: if_splits)

lemma pow2_bitlen:
  assumes "0 < p"
  shows "(2::rat) powi (bitlen p - 1) \<le> of_int p" and "of_int p < (2::rat) powi bitlen p"
proof -
  from bitlen_bounds [OF assms]
  have lo: "2 ^ nat (bitlen p - 1) \<le> p" and hi: "p < 2 ^ nat (bitlen p)" by auto
  have b1: "1 \<le> bitlen p" using assms by (simp add: bitlen_alt_def)
  have "(2::rat) powi (bitlen p - 1) = of_int (2 ^ nat (bitlen p - 1))"
    using b1 by (simp add: power_int_def)
  also have "\<dots> \<le> of_int p" using lo by (simp only: of_int_le_iff)
  finally show "(2::rat) powi (bitlen p - 1) \<le> of_int p" .
  have "(2::rat) powi bitlen p = of_int (2 ^ nat (bitlen p))"
    using b1 by (simp add: power_int_def)
  moreover have "(of_int p :: rat) < of_int (2 ^ nat (bitlen p))"
    using hi by (simp only: of_int_less_iff)
  ultimately show "of_int p < (2::rat) powi bitlen p" by simp
qed

lemma expo_bounds:
  assumes "x \<noteq> 0"
  shows "2 powi expo x \<le> \<bar>x\<bar>" and "\<bar>x\<bar> < 2 powi (expo x + 1)"
proof -
  obtain p q where pq: "quotient_of \<bar>x\<bar> = (p, q)" by force
  have q: "0 < q" using pq by (rule quotient_of_denom_pos)
  have x: "\<bar>x\<bar> = of_int p / of_int q" using pq by (rule quotient_of_div)
  have "0 < \<bar>x\<bar>" using assms by simp
  then have p: "0 < p" using q unfolding x by (simp add: zero_less_divide_iff)
  define d where "d = bitlen p - bitlen q"
  have e: "expo x = (if 2 powi d \<le> \<bar>x\<bar> then d else d - 1)"
    by (simp add: expo_def pq d_def Let_def)
  have qpos: "(0::rat) < of_int q" using q by simp
  have up: "\<bar>x\<bar> < 2 powi (d + 1)"
  proof -
    have "of_int p < (2::rat) powi bitlen p" using p by (rule pow2_bitlen)
    moreover have "(2::rat) powi (bitlen q - 1) \<le> of_int q" using q by (rule pow2_bitlen)
    ultimately have "of_int p * 2 powi (bitlen q - 1) < (2::rat) powi bitlen p * of_int q"
      using qpos p by (intro mult_less_le_imp_less) auto
    then have "of_int p / of_int q < (2::rat) powi bitlen p / 2 powi (bitlen q - 1)"
      using qpos by (simp add: field_simps)
    also have "\<dots> = 2 powi (d + 1)"
      by (simp add: d_def power_int_diff [symmetric] algebra_simps)
    finally show ?thesis unfolding x .
  qed
  have lo: "2 powi (d - 1) < \<bar>x\<bar>"
  proof -
    have "(2::rat) powi (bitlen p - 1) \<le> of_int p" using p by (rule pow2_bitlen)
    moreover have "of_int q < (2::rat) powi bitlen q" using q by (rule pow2_bitlen)
    ultimately have "(2::rat) powi (bitlen p - 1) * of_int q < of_int p * 2 powi bitlen q"
      using qpos p by (intro mult_le_less_imp_less) auto
    then have "(2::rat) powi (bitlen p - 1) / 2 powi bitlen q < of_int p / of_int q"
      using qpos by (simp add: field_simps)
    moreover have "(2::rat) powi (bitlen p - 1) / 2 powi bitlen q = 2 powi (d - 1)"
      by (simp add: d_def power_int_diff [symmetric] algebra_simps)
    ultimately show ?thesis unfolding x by simp
  qed
  show "2 powi expo x \<le> \<bar>x\<bar>" using lo by (simp add: e)
  show "\<bar>x\<bar> < 2 powi (expo x + 1)" using up by (auto simp: e not_le)
qed

lemma ulp_pos: "0 < (2::rat) powi k"
  by simp

lemma fl_0: "fl 0 = 0"
  by (simp add: fl_def)

lemma fl_nonneg: "0 \<le> x \<Longrightarrow> 0 \<le> fl x"
proof (cases "x = 0")
  case True
  then show ?thesis by (simp add: fl_def)
next
  case False
  assume "0 \<le> x"
  define s :: rat where "s = 2 powi (expo x - 52)"
  have s: "0 < s" by (simp add: s_def)
  have "rat_of_int 0 \<le> x / s" using \<open>0 \<le> x\<close> s by simp
  then have "0 \<le> round_even (x / s)" by (rule round_even_ge)
  then show ?thesis using False s by (simp add: fl_def Let_def s_def [symmetric])
qed

lemma fl_le_int:
  assumes "0 \<le> x" and "x \<le> of_int n" and "n < 2 ^ 53"
  shows "fl x \<le> of_int n"
proof (cases "x = 0")
  case True
  then show ?thesis using assms by (simp add: fl_def)
next
  case False
  define k where "k = expo x"
  define s :: rat where "s = 2 powi (k - 52)"
  have "2 powi k \<le> \<bar>x\<bar>" unfolding k_def using False by (rule expo_bounds)
  also have "\<bar>x\<bar> \<le> of_int n" using assms by simp
  also have "(of_int n :: rat) < of_int (2 ^ 53)" using assms(3) by (simp only: of_int_less_iff)
  also have "(of_int (2 ^ 53) :: rat) = 2 powi 53" by simp
  finally have "(2::rat) powi k < 2 powi 53" .
  then have k: "k \<le> 52" using power_int_le_imp_less_exp [of "2::rat" k 53] by simp
  define S :: int where "S = 2 ^ nat (52 - k)"
  have sS: "s = 1 / of_int S"
    using k by (simp add: s_def S_def power_int_def inverse_eq_divide power_one_over)
  have Spos: "0 < S" by (simp add: S_def)
  have s_pos: "0 < s" by (simp add: s_def)
  have "x / s = x * of_int S" by (simp add: sS)
  also have "\<dots> \<le> of_int n * of_int S" using assms(2) Spos by (simp add: mult_right_mono)
  finally have "x / s \<le> of_int (n * S)" by simp
  then have "round_even (x / s) \<le> n * S" by (rule round_even_le)
  then have "(of_int (round_even (x / s)) :: rat) \<le> of_int (n * S)" by (simp only: of_int_le_iff)
  then have "of_int (round_even (x / s)) * s \<le> of_int (n * S) * s"
    using s_pos by (rule mult_right_mono [OF _ less_imp_le])
  also have "of_int (n * S) * s = of_int n" using Spos by (simp add: sS)
  finally show ?thesis using False by (simp add: fl_def Let_def s_def k_def)
qed

lemma fl_scale_le:
  assumes "0 \<le> a" and "a \<le> of_int n" and "n < 2 ^ 53" and "0 < b" and "1024 \<le> b"
  shows "fl (a * fl (1024 / b)) \<le> of_int n" and "0 \<le> fl (a * fl (1024 / b))"
proof -
  have c0: "0 \<le> fl (1024 / b)" using assms(4) by (intro fl_nonneg) simp
  have "fl (1024 / b) \<le> of_int 1"
    using assms(4,5) by (intro fl_le_int) simp_all
  then have c1: "fl (1024 / b) \<le> 1" by simp
  have "a * fl (1024 / b) \<le> a * 1" using c1 assms(1) by (rule mult_left_mono)
  then have "a * fl (1024 / b) \<le> of_int n" using assms(2) by simp
  moreover have p: "0 \<le> a * fl (1024 / b)" using assms(1) c0 by simp
  ultimately show "fl (a * fl (1024 / b)) \<le> of_int n" using assms(3) by (intro fl_le_int)
  show "0 \<le> fl (a * fl (1024 / b))" using p by (rule fl_nonneg)
qed

lemma round_even_eq: "\<bar>y - of_int m\<bar> < 1 / 2 \<Longrightarrow> round_even y = m"
proof -
  assume a: "\<bar>y - of_int m\<bar> < 1 / 2"
  have "\<bar>of_int (round_even y) - y\<bar> \<le> 1 / 2" by (rule round_even_error)
  with a have "\<bar>rat_of_int (round_even y) - of_int m\<bar> < 1" by linarith
  then have "\<bar>rat_of_int (round_even y - m)\<bar> < rat_of_int 1" by simp
  then have "\<bar>round_even y - m\<bar> < 1" by (simp only: of_int_abs [symmetric] of_int_less_iff)
  then show ?thesis by linarith
qed

lemma expo_eq:
  assumes "2 powi k \<le> \<bar>x\<bar>" and "\<bar>x\<bar> < 2 powi (k + 1)"
  shows "expo x = k"
proof -
  have "0 < \<bar>x\<bar>" using assms(1) ulp_pos [of k] by linarith
  then have nz: "x \<noteq> 0" by simp
  have "(2::rat) powi k < 2 powi (expo x + 1)"
    using assms(1) expo_bounds(2) [OF nz] by linarith
  then have 1: "k < expo x + 1"
    using power_int_increasing [of "expo x + 1" k "2::rat"] by (cases "k < expo x + 1") auto
  have "(2::rat) powi expo x < 2 powi (k + 1)"
    using assms(2) expo_bounds(1) [OF nz] by linarith
  then have 2: "expo x < k + 1"
    using power_int_increasing [of "k + 1" "expo x" "2::rat"] by (cases "expo x < k + 1") auto
  from 1 2 show ?thesis by linarith
qed

lemma fl_eq:
  assumes "2 powi k \<le> \<bar>x\<bar>" and "\<bar>x\<bar> < 2 powi (k + 1)"
    and "\<bar>x / 2 powi (k - 52) - of_int m\<bar> < 1 / 2"
  shows "fl x = of_int m * 2 powi (k - 52)"
proof -
  have "0 < \<bar>x\<bar>" using assms(1) ulp_pos [of k] by linarith
  then have nz: "x \<noteq> 0" by simp
  have e: "expo x = k" using assms(1,2) by (rule expo_eq)
  have "round_even (x / 2 powi (k - 52)) = m" using assms(3) by (rule round_even_eq)
  then show ?thesis using nz by (simp add: fl_def e)
qed

lemma fl_of_int:
  assumes "\<bar>n\<bar> < 2 ^ 53"
  shows "fl (of_int n) = of_int n"
proof (cases "n = 0")
  case True
  then show ?thesis by (simp add: fl_def)
next
  case False
  define x where "x = rat_of_int n"
  define k where "k = expo x"
  define s :: rat where "s = 2 powi (k - 52)"
  have nz: "x \<noteq> 0" using False by (simp add: x_def)
  have "2 powi k \<le> \<bar>x\<bar>" unfolding k_def using nz by (rule expo_bounds)
  also have "\<bar>x\<bar> = of_int \<bar>n\<bar>" by (simp add: x_def)
  also have "(of_int \<bar>n\<bar> :: rat) < of_int (2 ^ 53)" using assms by (simp only: of_int_less_iff)
  also have "(of_int (2 ^ 53) :: rat) = 2 powi 53" by simp
  finally have "(2::rat) powi k < 2 powi 53" .
  then have k: "k \<le> 52" using power_int_le_imp_less_exp [of "2::rat" k 53] by simp
  define S :: int where "S = 2 ^ nat (52 - k)"
  have sS: "s = 1 / of_int S"
    using k by (simp add: s_def S_def power_int_def inverse_eq_divide power_one_over)
  have Spos: "0 < S" by (simp add: S_def)
  have "x / s = of_int (n * S)" by (simp add: sS x_def)
  then have "round_even (x / s) = n * S" by (simp only: round_even_of_int)
  then have "fl x = of_int (n * S) * s" using nz by (simp add: fl_def k_def s_def)
  also have "\<dots> = x" using Spos by (simp add: sS x_def)
  finally show ?thesis by (simp add: x_def)
qed

lemma fl_error:
  assumes "x \<noteq> 0"
  shows "\<bar>fl x - x\<bar> \<le> 2 powi (expo x - 53)"
proof -
  define s :: rat where "s = 2 powi (expo x - 52)"
  have s: "0 < s" by (simp add: s_def)
  have "fl x - x = (of_int (round_even (x / s)) - x / s) * s"
    using assms s by (simp add: fl_def s_def [symmetric] algebra_simps)
  then have "\<bar>fl x - x\<bar> = \<bar>of_int (round_even (x / s)) - x / s\<bar> * s"
    using s by (simp add: abs_mult)
  also have "\<dots> \<le> 1 / 2 * s"
    using round_even_error [of "x / s"] s by (intro mult_right_mono) simp_all
  also have "1 / 2 * s = 2 powi (expo x - 53)"
    using power_int_diff [of "2::rat" "expo x - 52" 1] by (simp add: s_def)
  finally show ?thesis .
qed

text \<open>
  The result of \<open>fl\<close> has a significand of 53 bits, and (\<open>fl_error\<close>) lies within
  half a unit in the last place of its argument: it is a nearest binary64 number.
\<close>

lemma fl_significand:
  assumes "x \<noteq> 0"
  shows "\<exists>m. fl x = of_int m * 2 powi (expo x - 52) \<and> 2 ^ 52 \<le> \<bar>m\<bar> \<and> \<bar>m\<bar> \<le> 2 ^ 53"
proof -
  define s :: rat where "s = 2 powi (expo x - 52)"
  define m where "m = round_even (x / s)"
  have s: "0 < s" by (simp add: s_def)
  have e: "2 powi expo x = 2 ^ 52 * s" "2 powi (expo x + 1) = 2 ^ 53 * s"
    using power_int_add [of "2::rat" "expo x - 52" 52] power_int_add [of "2::rat" "expo x - 52" 53]
    by (simp_all add: s_def add.commute mult.commute)
  have lo: "2 ^ 52 \<le> \<bar>x\<bar> / s" and hi: "\<bar>x\<bar> / s \<le> 2 ^ 53"
    using expo_bounds [OF assms] s unfolding e by (simp_all add: field_simps)
  have f: "fl x = of_int m * s" using assms by (simp add: fl_def m_def s_def Let_def)
  have "2 ^ 52 \<le> \<bar>m\<bar> \<and> \<bar>m\<bar> \<le> 2 ^ 53"
  proof (cases "0 < x")
    case True
    then have a: "\<bar>x\<bar> / s = x / s" by simp
    have "rat_of_int (2 ^ 52) \<le> x / s" using lo unfolding a by simp
    then have "2 ^ 52 \<le> m" unfolding m_def by (rule round_even_ge)
    moreover have "x / s \<le> rat_of_int (2 ^ 53)" using hi unfolding a by simp
    then have "m \<le> 2 ^ 53" unfolding m_def by (rule round_even_le)
    ultimately show ?thesis by simp
  next
    case False
    with assms have neg: "x < 0" by simp
    then have a: "\<bar>x\<bar> / s = - (x / s)" by simp
    have "x / s \<le> rat_of_int (- (2 ^ 52))" using lo unfolding a by simp
    then have "m \<le> - (2 ^ 52)" unfolding m_def by (rule round_even_le)
    moreover have "rat_of_int (- (2 ^ 53)) \<le> x / s" using hi unfolding a by simp
    then have "- (2 ^ 53) \<le> m" unfolding m_def by (rule round_even_ge)
    ultimately show ?thesis by simp
  qed
  with f show ?thesis unfolding s_def by blast
qed

lemma fl_numeral: "numeral n < (2 ^ 53 :: int) \<Longrightarrow> fl (numeral n) = numeral n"
  using fl_of_int [of "numeral n"] by simp

lemma floor_rat_numeral:
  "\<lfloor>(numeral a / numeral b :: rat)\<rfloor> = numeral a div numeral b"
  using floor_divide_of_int_eq [of "numeral a" "numeral b", where ?'a = rat] by simp

lemma fl_eval:
  assumes "2 powi k \<le> \<bar>x\<bar>" and "\<bar>x\<bar> < 2 powi (k + 1)"
    and "round_even (x / 2 powi (k - 52)) = m"
  shows "fl x = of_int m * 2 powi (k - 52)"
proof -
  have "0 < \<bar>x\<bar>" using assms(1) ulp_pos [of k] by linarith
  then have nz: "x \<noteq> 0" by simp
  have e: "expo x = k" using assms(1,2) by (rule expo_eq)
  show ?thesis using nz assms(3) by (simp add: fl_def e)
qed

subsection \<open>The values the program computes\<close>

text \<open>
  The literals \<^verbatim>\<open>0.9\<close> and \<^verbatim>\<open>0.1\<close> are the binary64 numbers
  \<open>0x1CCCCCCCCCCCCD / 2 ^ 53\<close> and \<open>0x1999999999999A / 2 ^ 56\<close>; the qualities of the
  ten attempts print as 0.9, 0.8, 0.7000000000000001, 0.6000000000000001,
  0.5000000000000001, 0.40000000000000013, 0.30000000000000016, 0.20000000000000015,
  0.10000000000000014 and 1.3877787807814457e-16.
\<close>

lemma fl_9_10: "fl (9 / 10) = 8106479329266893 / 9007199254740992"
  using fl_eval [of "-1" "9 / 10" 8106479329266893]
  by (simp add: round_even_def Let_def floor_rat_numeral)

lemma fl_1_10: "fl (1 / 10) = 3602879701896397 / 36028797018963968"
  using fl_eval [of "-4" "1 / 10" 7205759403792794]
  by (simp add: round_even_def Let_def floor_rat_numeral)

lemma lower_0: "lower (8106479329266893 / 9007199254740992) = 3602879701896397 / 4503599627370496"
  unfolding lower_def fl_1_10
  using fl_eval [of "-1" "8106479329266893 / 9007199254740992 - 3602879701896397 / 36028797018963968" 7205759403792794]
  by (simp add: round_even_def Let_def floor_rat_numeral)

lemma lower_1: "lower (3602879701896397 / 4503599627370496) = 6305039478318695 / 9007199254740992"
  unfolding lower_def fl_1_10
  using fl_eval [of "-1" "3602879701896397 / 4503599627370496 - 3602879701896397 / 36028797018963968" 6305039478318695]
  by (simp add: round_even_def Let_def floor_rat_numeral)

lemma lower_2: "lower (6305039478318695 / 9007199254740992) = 1351079888211149 / 2251799813685248"
  unfolding lower_def fl_1_10
  using fl_eval [of "-1" "6305039478318695 / 9007199254740992 - 3602879701896397 / 36028797018963968" 5404319552844596]
  by (simp add: round_even_def Let_def floor_rat_numeral)

lemma lower_3: "lower (1351079888211149 / 2251799813685248) = 4503599627370497 / 9007199254740992"
  unfolding lower_def fl_1_10
  using fl_eval [of "-1" "1351079888211149 / 2251799813685248 - 3602879701896397 / 36028797018963968" 4503599627370497]
  by (simp add: round_even_def Let_def floor_rat_numeral)

lemma lower_4: "lower (4503599627370497 / 9007199254740992) = 1801439850948199 / 4503599627370496"
  unfolding lower_def fl_1_10
  using fl_eval [of "-2" "4503599627370497 / 9007199254740992 - 3602879701896397 / 36028797018963968" 7205759403792796]
  by (simp add: round_even_def Let_def floor_rat_numeral)

lemma lower_5: "lower (1801439850948199 / 4503599627370496) = 2702159776422299 / 9007199254740992"
  unfolding lower_def fl_1_10
  using fl_eval [of "-2" "1801439850948199 / 4503599627370496 - 3602879701896397 / 36028797018963968" 5404319552844598]
  by (simp add: round_even_def Let_def floor_rat_numeral)

lemma lower_6: "lower (2702159776422299 / 9007199254740992) = 7205759403792799 / 36028797018963968"
  unfolding lower_def fl_1_10
  using fl_eval [of "-3" "2702159776422299 / 9007199254740992 - 3602879701896397 / 36028797018963968" 7205759403792799]
  by (simp add: round_even_def Let_def floor_rat_numeral)

lemma lower_7: "lower (7205759403792799 / 36028797018963968) = 1801439850948201 / 18014398509481984"
  unfolding lower_def fl_1_10
  using fl_eval [of "-4" "7205759403792799 / 36028797018963968 - 3602879701896397 / 36028797018963968" 7205759403792804]
  by (simp add: round_even_def Let_def floor_rat_numeral)

lemma lower_8: "lower (1801439850948201 / 18014398509481984) = 5 / 36028797018963968"
  unfolding lower_def fl_1_10
  using fl_eval [of "-53" "1801439850948201 / 18014398509481984 - 3602879701896397 / 36028797018963968" 5629499534213120]
  by (simp add: round_even_def Let_def floor_rat_numeral)


lemma quality_at_0: "quality_at 0 = fl (9 / 10)"
  by (simp add: quality_at_def)

lemma quality_at_Suc: "quality_at (Suc k) = lower (quality_at k)"
  by (simp add: quality_at_def)

lemmas lower_values = lower_0 lower_1 lower_2 lower_3 lower_4 lower_5 lower_6 lower_7 lower_8

lemma quality_values:
  "quality_at 0 = 8106479329266893 / 9007199254740992"
  "quality_at 1 = 3602879701896397 / 4503599627370496"
  "quality_at (Suc 0) = 3602879701896397 / 4503599627370496"
  "quality_at 2 = 6305039478318695 / 9007199254740992"
  "quality_at 3 = 1351079888211149 / 2251799813685248"
  "quality_at 4 = 4503599627370497 / 9007199254740992"
  "quality_at 5 = 1801439850948199 / 4503599627370496"
  "quality_at 6 = 2702159776422299 / 9007199254740992"
  "quality_at 7 = 7205759403792799 / 36028797018963968"
  "quality_at 8 = 1801439850948201 / 18014398509481984"
  "quality_at 9 = 5 / 36028797018963968"
  by (simp_all add: quality_at_def eval_nat_numeral fl_9_10 lower_values)

lemma upt_10: "[0..<10] = [0, 1, 2, 3, 4, 5, 6, 7, 8, 9 :: nat]"
  by (simp add: upt_rec)

lemma quality_list:
  "map quality_at [0..<10] =
    [8106479329266893 / 9007199254740992, 3602879701896397 / 4503599627370496,
     6305039478318695 / 9007199254740992, 1351079888211149 / 2251799813685248,
     4503599627370497 / 9007199254740992, 1801439850948199 / 4503599627370496,
     2702159776422299 / 9007199254740992, 7205759403792799 / 36028797018963968,
     1801439850948201 / 18014398509481984, 5 / 36028797018963968]"
  by (simp add: upt_10 quality_values)

lemma quality_bounds:
  "\<forall>k<10. 0 \<le> quality_at k \<and> quality_at k \<le> 1 \<and>
     \<bar>quality_at k - (9 - of_nat k) / 10\<bar> < 1 / 2 ^ 52"
proof -
  have "\<forall>k\<in>set [0..<10]. 0 \<le> quality_at k \<and> quality_at k \<le> 1 \<and>
     \<bar>quality_at k - (9 - of_nat k) / 10\<bar> < 1 / 2 ^ 52"
    by (simp add: upt_10 quality_values)
  then show ?thesis by simp
qed

lemma upt_4: "[0..<4] = [0, 1, 2, 3 :: nat]"
  by (simp add: upt_rec)

lemma upt_9: "[0..<9] = [0, 1, 2, 3, 4, 5, 6, 7, 8 :: nat]"
  by (simp add: upt_rec)

lemma quality_decreasing: "\<forall>k<9. quality_at (Suc k) < quality_at k"
proof -
  have "\<forall>k\<in>set [0..<9]. quality_at (Suc k) < quality_at k"
    by (simp add: upt_9 quality_values numeral_2_eq_2 [symmetric])
  then show ?thesis by simp
qed

lemma fl_7_10: "fl (7 / 10) = 3152519739159347 / 4503599627370496"
  using fl_eval [of "-1" "7 / 10" 6305039478318694]
  by (simp add: round_even_def Let_def floor_rat_numeral)

section \<open>The resize step\<close>

lemma to_number_bound: "0 \<le> to_number w" "to_number w = of_int (int (unat w))" "int (unat w) < 2 ^ 53"
proof -
  show "0 \<le> to_number w" by (simp add: to_number_def del: of_nat_unat)
  show "to_number w = of_int (int (unat w))" by (simp add: to_number_def del: of_nat_unat)
  have "uint w < 2 ^ 32" using uint_lt2p [of w] by simp
  then show "int (unat w) < 2 ^ 53" by simp
qed

lemma resize_bounds:
  "0 \<le> fst (resize w h) \<and> fst (resize w h) \<le> to_number w \<and>
   0 \<le> snd (resize w h) \<and> snd (resize w h) \<le> to_number h"
proof -
  define a where "a = to_number w"
  define b where "b = to_number h"
  have a: "0 \<le> a" "a \<le> of_int (int (unat w))" "int (unat w) < 2 ^ 53"
    using to_number_bound [of w] by (simp_all only: a_def order_refl)
  have b: "0 \<le> b" "b \<le> of_int (int (unat h))" "int (unat h) < 2 ^ 53"
    using to_number_bound [of h] by (simp_all only: b_def order_refl)
  have r: "resize w h =
    (if a > b then (if a > 1024 then (1024, fl (b * fl (1024 / a))) else (a, b))
     else (if b > 1024 then (fl (a * fl (1024 / b)), 1024) else (a, b)))"
    by (simp add: resize_def Let_def a_def b_def MAX_WIDTH_def MAX_HEIGHT_def)
  have 1: "0 \<le> fl (b * fl (1024 / a)) \<and> fl (b * fl (1024 / a)) \<le> b" if "a > 1024"
    using fl_scale_le [OF b, of a] that to_number_bound(2) [of h] by (simp only: b_def)
  have 2: "0 \<le> fl (a * fl (1024 / b)) \<and> fl (a * fl (1024 / b)) \<le> a" if "b > 1024"
    using fl_scale_le [OF a, of b] that to_number_bound(2) [of w] by (simp only: a_def)
  show ?thesis
    unfolding r a_def [symmetric] b_def [symmetric] using 1 2 a(1) b(1) by auto
qed

lemma to_uint32_le:
  assumes "0 \<le> x" and "x \<le> to_number w"
  shows "to_uint32 x \<le> w"
proof -
  have f0: "0 \<le> \<lfloor>x\<rfloor>" using assms(1) by simp
  have "\<lfloor>x\<rfloor> \<le> \<lfloor>rat_of_int (int (unat w))\<rfloor>"
    using assms(2) unfolding to_number_bound(2) by (rule floor_mono)
  then have f1: "\<lfloor>x\<rfloor> \<le> uint w" by (simp only: floor_of_int of_nat_unat)
  have "uint w < 4294967296" using uint_lt2p [of w] by simp
  then have "\<lfloor>x\<rfloor> < 4294967296" using f1 by linarith
  then have "\<lfloor>x\<rfloor> < 2 ^ 32" by (simp del: floor_less_numeral)
  then have "uint (word_of_int \<lfloor>x\<rfloor> :: 32 word) = \<lfloor>x\<rfloor>"
    using f0 by (simp add: uint_word_of_int take_bit_int_eq_self)
  then show ?thesis using f1 assms(1) by (simp add: to_uint32_def word_le_def)
qed

lemma to_uint32_to_number: "to_uint32 (to_number w) = w"
proof -
  have "0 \<le> rat_of_int (uint w)" by (simp del: of_int_uint)
  then have "to_uint32 (rat_of_int (uint w)) = w"
    by (simp add: to_uint32_def word_of_int_uint del: of_int_uint)
  then show ?thesis by (simp add: to_number_def)
qed

lemma resize_2000_1000: "resize 2000 1000 = (1024, 512)"
proof -
  have c: "fl (64 / 125) = 1152921504606847 / 2251799813685248"
    using fl_eval [of "-1" "64 / 125" 4611686018427388]
    by (simp add: round_even_def Let_def floor_rat_numeral)
  have "fl (1000 * (1152921504606847 / 2251799813685248)) = 512"
    using fl_eval [of 9 "1000 * (1152921504606847 / 2251799813685248)" 4503599627370496]
    by (simp add: round_even_def Let_def floor_rat_numeral)
  then have "fl (1000 * fl (64 / 125)) = 512" by (simp only: c)
  then show ?thesis by (simp add: resize_def to_number_def MAX_WIDTH_def)
qed

lemma canvas_dims:
  "canvas_width (make_canvas img) = to_uint32 (fst (resize (img_width img) (img_height img)))"
  "canvas_height (make_canvas img) = to_uint32 (snd (resize (img_width img) (img_height img)))"
  by (simp_all add: make_canvas_def split_beta)

section \<open>Runs of the search loop\<close>

lemma qualities_map: "qualities q n = map (\<lambda>i. (lower ^^ i) q) [0..<n]"
proof (induction n arbitrary: q)
  case 0
  show ?case by simp
next
  case (Suc n)
  have "map (\<lambda>i. (lower ^^ i) q) [0..<Suc n] = q # map (\<lambda>i. (lower ^^ Suc i) q) [0..<n]"
    by (simp only: upt_conv_Cons [of 0 "Suc n"] map_Suc_upt [symmetric] list.map map_map o_def)
       simp
  also have "\<dots> = q # map (\<lambda>i. (lower ^^ i) (lower q)) [0..<n]"
    by (simp only: funpow_Suc_right o_apply)
  finally show ?case using Suc.IH [of "lower q"] by simp
qed

lemma qualities_quality_at: "qualities (fl (9 / 10)) n = map quality_at [0..<n]"
  by (simp add: qualities_map quality_at_def)

lemma length_qualities: "length (qualities q n) = n"
  by (induction n arbitrary: q) simp_all

lemma take_qualities: "n \<le> m \<Longrightarrow> take n (qualities q m) = qualities q n"
proof (induction n arbitrary: q m)
  case 0
  show ?case by simp
next
  case (Suc n)
  then obtain m' where "m = Suc m'" by (cases m) auto
  with Suc show ?case by simp
qed

lemma branch_TooLarge: "branch_of s mn mx = TooLarge \<longleftrightarrow> js_gt s mx"
  by (simp add: branch_of_def)

lemma encodes_tryCompress:
  "\<exists>n. n \<le> nat attempts \<and> snd (tryCompress B c mn mx q attempts) = qualities q n"
proof (induction B c mn mx q attempts rule: tryCompress.induct)
  case (1 B c mn mx q a)
  show ?case
  proof (cases "a \<le> 0")
    case True
    then show ?thesis by (intro exI [of _ 0]) simp
  next
    case pos: False
    show ?thesis
    proof (cases "toBlob B c q")
      case None
      with pos show ?thesis by (intro exI [of _ "Suc 0"]) simp
    next
      case (Some blob)
      show ?thesis
      proof (cases "branch_of (sizeKB B blob) mn mx")
        case TooLarge
        from "1.IH" [OF pos Some TooLarge]
        obtain n where n: "n \<le> nat (a - 1)"
          and s: "snd (tryCompress B c mn mx (lower q) (a - 1)) = qualities (lower q) n"
          by blast
        have "snd (tryCompress B c mn mx q a) = qualities q (Suc n)"
          using pos Some TooLarge s by simp
        moreover have "Suc n \<le> nat a" using n pos by linarith
        ultimately show ?thesis by blast
      next
        case TooSmall
        with pos Some show ?thesis by (intro exI [of _ "Suc 0"]) simp
      next
        case WithinRange
        with pos Some show ?thesis by (intro exI [of _ "Suc 0"]) simp
      qed
    qed
  qed
qed

lemma tryCompress_exhaust:
  "(\<And>i. i < n \<Longrightarrow> too_large B c mx ((lower ^^ i) q)) \<Longrightarrow>
   tryCompress B c mn mx q (int n) = (Inl (Error (size_message B mn mx)), qualities q n)"
proof (induction n arbitrary: q)
  case 0
  show ?case by simp
next
  case (Suc n)
  from Suc.prems [of 0] obtain blob where b: "toBlob B c q = Some blob"
    and g: "js_gt (sizeKB B blob) mx"
    by (auto simp: too_large_def split: option.splits)
  have "too_large B c mx ((lower ^^ i) (lower q))" if "i < n" for i
    using Suc.prems [of "Suc i"] that by (simp add: funpow_swap1)
  then have "tryCompress B c mn mx (lower q) (int n)
             = (Inl (Error (size_message B mn mx)), qualities (lower q) n)"
    by (rule Suc.IH)
  then show ?case using b g by (simp add: branch_of_def)
qed

lemma tryCompress_accept:
  "j < n \<Longrightarrow> (\<And>i. i < j \<Longrightarrow> too_large B c mx ((lower ^^ i) q)) \<Longrightarrow>
   toBlob B c ((lower ^^ j) q) = Some blob \<Longrightarrow> \<not> js_gt (sizeKB B blob) mx \<Longrightarrow>
   tryCompress B c mn mx q (int n) = (Inr (blob_dataURL B blob), qualities q (Suc j))"
proof (induction j arbitrary: q n)
  case 0
  then have "branch_of (sizeKB B blob) mn mx \<noteq> TooLarge" by (simp add: branch_TooLarge)
  with 0 show ?case by (cases "branch_of (sizeKB B blob) mn mx") simp_all
next
  case (Suc j)
  from Suc.prems(1) obtain n' where n': "n = Suc n'" and jn: "j < n'" by (cases n) auto
  from Suc.prems(2) [of 0] obtain b0 where b: "toBlob B c q = Some b0"
    and g: "js_gt (sizeKB B b0) mx"
    by (auto simp: too_large_def split: option.splits)
  have tl: "too_large B c mx ((lower ^^ i) (lower q))" if "i < j" for i
    using Suc.prems(2) [of "Suc i"] that by (simp add: funpow_swap1)
  have "toBlob B c ((lower ^^ j) (lower q)) = Some blob"
    using Suc.prems(3) by (simp add: funpow_swap1)
  from Suc.IH [OF jn tl this Suc.prems(4)]
  have "tryCompress B c mn mx (lower q) (int n')
        = (Inr (blob_dataURL B blob), qualities (lower q) (Suc j))" by simp
  then show ?case using b g by (simp add: n' branch_of_def)
qed

lemma js_le_Finite: "js_le (Finite s) mx \<longleftrightarrow> mx \<noteq> NaN \<and> \<not> js_gt (Finite s) mx"
  by (cases mx) (simp_all add: js_gt_def)

lemma js_lt_le_trans: "js_lt (Finite s) mn \<Longrightarrow> js_le mn mx \<Longrightarrow> \<not> js_gt (Finite s) mx"
  by (cases mn; cases mx) (simp_all add: js_gt_def)

lemma compressImage_ready:
  assumes "readAsDataURL B file = Some url" and "loadImage B url = Some img" and "getContext B"
  shows "compressImage B file mn mx = tryCompress B (make_canvas img) mn mx (fl (9 / 10)) 10"
  using assms by (simp add: compressImage_def)

lemma compressImage_accept:
  assumes "readAsDataURL B file = Some url" and "loadImage B url = Some img" and "getContext B"
    and "j < 10"
    and "\<And>i. i < j \<Longrightarrow> too_large B (make_canvas img) mx (quality_at i)"
    and "toBlob B (make_canvas img) (quality_at j) = Some blob"
    and "\<not> js_gt (sizeKB B blob) mx"
  shows "compressImage B file mn mx = (Inr (blob_dataURL B blob), map quality_at [0..<Suc j])"
proof -
  have "tryCompress B (make_canvas img) mn mx (fl (9 / 10)) (int 10)
        = (Inr (blob_dataURL B blob), qualities (fl (9 / 10)) (Suc j))"
    using assms(4-7) unfolding quality_at_def by (rule tryCompress_accept)
  then show ?thesis
    using compressImage_ready [OF assms(1-3)] by (simp only: qualities_quality_at) simp
qed

lemma compressImage_exhaust:
  assumes "readAsDataURL B file = Some url" and "loadImage B url = Some img" and "getContext B"
    and "\<And>i. i < 10 \<Longrightarrow> too_large B (make_canvas img) mx (quality_at i)"
  shows "compressImage B file mn mx
         = (Inl (Error (size_message B mn mx)), map quality_at [0..<10])"
proof -
  have "tryCompress B (make_canvas img) mn mx (fl (9 / 10)) (int 10)
        = (Inl (Error (size_message B mn mx)), qualities (fl (9 / 10)) 10)"
    using assms(4) unfolding quality_at_def by (rule tryCompress_exhaust)
  then show ?thesis
    using compressImage_ready [OF assms(1-3)] by (simp only: qualities_quality_at) simp
qed

lemma encodes_compressImage:
  "\<exists>n\<le>10. snd (compressImage B file mn mx) = map quality_at [0..<n]"
proof -
  have 0: "\<exists>n\<le>10. [] = map quality_at [0..<n]" by (intro exI [of _ 0]) simp
  have "\<exists>n\<le>10. snd (tryCompress B c mn mx (fl (9 / 10)) 10) = map quality_at [0..<n]" for c
    using encodes_tryCompress [of 10 B c mn mx "fl (9 / 10)"]
    by (simp add: qualities_quality_at)
  with 0 show ?thesis
    by (simp add: compressImage_def split: option.splits)
qed

lemma first_not_too_large:
  assumes "\<not> too_large B c mx (quality_at j)"
  shows "\<exists>k\<le>j. \<not> too_large B c mx (quality_at k) \<and>
           (\<forall>i<k. too_large B c mx (quality_at i))"
proof -
  define k where "k = (LEAST i. \<not> too_large B c mx (quality_at i))"
  have "\<not> too_large B c mx (quality_at k)" unfolding k_def using assms by (rule LeastI)
  moreover have "k \<le> j" unfolding k_def using assms by (rule Least_le)
  moreover have "too_large B c mx (quality_at i)" if "i < k" for i
    using not_less_Least [of i "\<lambda>i. \<not> too_large B c mx (quality_at i)"] that
    unfolding k_def by blast
  ultimately show ?thesis by blast
qed


lemma inverted_branch:
  "js_gt minSizeKB maxSizeKB \<Longrightarrow> branch_of (Finite s) minSizeKB maxSizeKB \<noteq> WithinRange"
  by (cases minSizeKB; cases maxSizeKB) (auto simp: branch_of_def js_gt_def)

section \<open>The example browser\<close>

lemma example_ready:
  "readAsDataURL (example_browser base) () = Some ''data:image/png;base64,iVBORw0KGgo=''"
  "loadImage (example_browser base) url = Some example_image"
  "getContext (example_browser base)"
  by (simp_all add: example_browser_def)

lemma example_toBlob:
  "toBlob (example_browser base) c q = Some (base + nat \<lfloor>q * 102400\<rfloor>)"
  by (simp add: example_browser_def)

lemma example_sizeKB:
  "n < 2 ^ 53 \<Longrightarrow> sizeKB (example_browser base) n = Finite (fl (of_nat n / 1024))"
  using fl_of_int [of "int n"] by (simp add: sizeKB_def example_browser_def)

lemma example_dataURL:
  "blob_dataURL (example_browser base) blob
   = (if blob \<le> 51200 then ''data:image/jpeg;base64,c21hbGw=''
      else ''data:image/jpeg;base64,bGFyZ2U='')"
  by (simp add: example_browser_def)

lemma example_toString:
  "toString (example_browser base) = example_toString"
  by (simp add: example_browser_def)

lemma example_too_large_40:
  "\<forall>i<10. too_large (example_browser 51200) (make_canvas example_image) (Finite 40)
     (quality_at i)"
proof -
  have "\<forall>i\<in>set [0..<10]. too_large (example_browser 51200) (make_canvas example_image)
     (Finite 40) (quality_at i)"
    by (simp add: upt_10 quality_values too_large_def example_toBlob floor_rat_numeral
        example_sizeKB fl_numeral js_gt_def)
  then show ?thesis by simp
qed

lemma example_run_40:
  "compressImage (example_browser 51200) () (Finite 20) (Finite 40)
   = (Inl (Error (size_message (example_browser 51200) (Finite 20) (Finite 40))),
      map quality_at [0..<10])"
  using example_ready _ by (rule compressImage_exhaust) (simp add: example_too_large_40)

lemma example_run_50:
  "compressImage (example_browser 0) () (Finite 20) (Finite 50)
   = (Inr ''data:image/jpeg;base64,c21hbGw='', map quality_at [0..<5])"
proof -
  let ?B = "example_browser 0"
  let ?c = "make_canvas example_image"
  have "\<forall>i\<in>set [0..<4]. too_large ?B ?c (Finite 50) (quality_at i)"
    by (simp add: upt_4 quality_values too_large_def example_toBlob
        floor_rat_numeral example_sizeKB fl_numeral js_gt_def)
  then have 1: "too_large ?B ?c (Finite 50) (quality_at i)" if "i < 4" for i
    using that by simp
  have 2: "toBlob ?B ?c (quality_at 4) = Some 51200"
    by (simp add: example_toBlob quality_values floor_rat_numeral)
  have 3: "\<not> js_gt (sizeKB ?B 51200) (Finite 50)"
    by (simp add: example_sizeKB fl_numeral js_gt_def)
  have "compressImage ?B () (Finite 20) (Finite 50)
        = (Inr (blob_dataURL ?B 51200), map quality_at [0..<Suc 4])"
    using example_ready _ 1 2 3 by (rule compressImage_accept) simp_all
  then show ?thesis by (simp add: example_dataURL)
qed


section \<open>The claims\<close>

text \<open>
  C1. For every image that loads and every window, if within the ten attempts some
  quality of the sequence is reached (the encoder yields a blob on each attempt up to it)
  and its measured size is at most \<open>maxSizeKB\<close>, then \<open>compressImage\<close> resolves, and
  the accepted attempt's measured size is at most \<open>maxSizeKB\<close>. The accepted attempt is
  the first one that is not too large, and the encoder was called exactly for the
  attempts up to it.
\<close>

theorem success_within_budget:
  assumes "readAsDataURL B file = Some url" and "loadImage B url = Some img" and "getContext B"
    and j: "j < 10"
    and enc: "\<forall>i<j. toBlob B (make_canvas img) (quality_at i) \<noteq> None"
    and b: "toBlob B (make_canvas img) (quality_at j) = Some blob"
    and le: "js_le (sizeKB B blob) maxSizeKB"
  shows "\<exists>k\<le>j. \<exists>accepted.
           toBlob B (make_canvas img) (quality_at k) = Some accepted \<and>
           js_le (sizeKB B accepted) maxSizeKB \<and>
           compressImage B file minSizeKB maxSizeKB
             = (Inr (blob_dataURL B accepted), map quality_at [0..<Suc k])"
proof -
  let ?c = "make_canvas img"
  have nan: "maxSizeKB \<noteq> NaN" using le by (simp add: sizeKB_def js_le_Finite)
  have "\<not> too_large B ?c maxSizeKB (quality_at j)"
    using b le by (simp add: too_large_def sizeKB_def js_le_Finite)
  then obtain k where kj: "k \<le> j" and nk: "\<not> too_large B ?c maxSizeKB (quality_at k)"
    and before: "\<And>i. i < k \<Longrightarrow> too_large B ?c maxSizeKB (quality_at i)"
    using first_not_too_large [of B ?c maxSizeKB j] by blast
  have "toBlob B ?c (quality_at k) \<noteq> None"
    using kj enc b by (cases "k = j") auto
  then obtain accepted where a: "toBlob B ?c (quality_at k) = Some accepted" by blast
  have ng: "\<not> js_gt (sizeKB B accepted) maxSizeKB" using nk a by (simp add: too_large_def)
  then have "js_le (sizeKB B accepted) maxSizeKB" using nan by (simp add: sizeKB_def js_le_Finite)
  moreover have "k < 10" using kj j by simp
  then have "compressImage B file minSizeKB maxSizeKB
             = (Inr (blob_dataURL B accepted), map quality_at [0..<Suc k])"
    using assms(1-3) before a ng by (intro compressImage_accept)
  ultimately show ?thesis using kj a by blast
qed

theorem success_within_budget_witness:
  "\<exists>k\<le>4. \<exists>accepted.
     toBlob (example_browser 0) (make_canvas example_image) (quality_at k) = Some accepted \<and>
     js_le (sizeKB (example_browser 0) accepted) (Finite 50) \<and>
     compressImage (example_browser 0) () (Finite 20) (Finite 50)
       = (Inr (blob_dataURL (example_browser 0) accepted), map quality_at [0..<Suc k])"
proof -
  have 1: "(4::nat) < 10" by simp
  have 2: "\<forall>i<4. toBlob (example_browser 0) (make_canvas example_image) (quality_at i) \<noteq> None"
    by (simp add: example_toBlob)
  have 3: "toBlob (example_browser 0) (make_canvas example_image) (quality_at 4) = Some 51200"
    by (simp add: example_toBlob quality_values floor_rat_numeral)
  have 4: "js_le (sizeKB (example_browser 0) 51200) (Finite 50)"
    by (simp add: example_sizeKB fl_numeral)
  show ?thesis
    using success_within_budget [OF example_ready 1 2 3 4] .
qed

text \<open>
  C2. Under the contract's precondition \<open>minSizeKB \<le> maxSizeKB\<close>: when an attempt
  yields a size below \<open>minSizeKB\<close> (all earlier attempts, if any, having been too
  large), \<open>compressImage\<close> resolves with that attempt's encoding and calls the encoder
  no more. For the first attempt (\<open>j = 0\<close>, quality 0.9) the encoder is called once.
  An undersized result is never rejected, and no branch raises the quality.
\<close>

theorem undersized_accepted:
  assumes "readAsDataURL B file = Some url" and "loadImage B url = Some img" and "getContext B"
    and window: "js_le minSizeKB maxSizeKB"
    and j: "j < 10"
    and before: "\<forall>i<j. too_large B (make_canvas img) maxSizeKB (quality_at i)"
    and b: "toBlob B (make_canvas img) (quality_at j) = Some blob"
    and small: "js_lt (sizeKB B blob) minSizeKB"
  shows "compressImage B file minSizeKB maxSizeKB
         = (Inr (blob_dataURL B blob), map quality_at [0..<Suc j])"
proof -
  have "\<not> js_gt (sizeKB B blob) maxSizeKB"
    using small window unfolding sizeKB_def by (rule js_lt_le_trans)
  with assms(1-3) j before b show ?thesis by (intro compressImage_accept) simp_all
qed

theorem undersized_accepted_witness:
  "compressImage (example_browser 0) () (Finite 100) (Finite 200)
     = (Inr ''data:image/jpeg;base64,bGFyZ2U='', [fl (9 / 10)]) \<and>
   compressImage (example_browser 0) () (Finite 55) (Finite 58)
     = (Inr ''data:image/jpeg;base64,c21hbGw='', map quality_at [0..<5])"
proof -
  let ?B = "example_browser 0"
  let ?c = "make_canvas example_image"
  have 1: "js_le (Finite 100) (Finite 200)" by simp
  have 2: "(0::nat) < 10" by simp
  have 3: "\<forall>i<0. too_large ?B ?c (Finite 200) (quality_at i)" by simp
  have 4: "toBlob ?B ?c (quality_at 0) = Some 92160"
    by (simp add: example_toBlob quality_values floor_rat_numeral)
  have 5: "js_lt (sizeKB ?B 92160) (Finite 100)"
    by (simp add: example_sizeKB fl_numeral)
  have first: "compressImage ?B () (Finite 100) (Finite 200)
     = (Inr ''data:image/jpeg;base64,bGFyZ2U='', [fl (9 / 10)])"
    using undersized_accepted [OF example_ready 1 2 3 4 5]
    by (simp add: quality_at_0 example_dataURL)
  have 6: "js_le (Finite 55) (Finite 58)" by simp
  have 7: "(4::nat) < 10" by simp
  have "\<forall>i\<in>set [0..<4]. too_large ?B ?c (Finite 58) (quality_at i)"
    by (simp add: upt_4 quality_values too_large_def example_toBlob
        floor_rat_numeral example_sizeKB fl_numeral js_gt_def)
  then have 8: "\<forall>i<4. too_large ?B ?c (Finite 58) (quality_at i)" by simp
  have 9: "toBlob ?B ?c (quality_at 4) = Some 51200"
    by (simp add: example_toBlob quality_values floor_rat_numeral)
  have 10: "js_lt (sizeKB ?B 51200) (Finite 55)"
    by (simp add: example_sizeKB fl_numeral)
  have fifth: "compressImage ?B () (Finite 55) (Finite 58)
     = (Inr ''data:image/jpeg;base64,c21hbGw='', map quality_at [0..<5])"
    using undersized_accepted [OF example_ready 6 7 8 9 10]
    by (simp add: example_dataURL)
  from first fifth show ?thesis by simp
qed

text \<open>
  C3. When each of the ten attempts yields a blob larger than \<open>maxSizeKB\<close>,
  \<open>compressImage\<close> rejects with the error whose message prints both \<open>minSizeKB\<close> and
  \<open>maxSizeKB\<close>; nothing is resolved.
\<close>

theorem budget_exhausted:
  assumes "readAsDataURL B file = Some url" and "loadImage B url = Some img" and "getContext B"
    and "\<forall>i<10. too_large B (make_canvas img) maxSizeKB (quality_at i)"
  shows "compressImage B file minSizeKB maxSizeKB
         = (Inl (Error (''Could not compress image to be between '' @ toString B minSizeKB
                          @ ''KB and '' @ toString B maxSizeKB
                          @ ''KB. Please try a different image.'')),
            map quality_at [0..<10])"
  using compressImage_exhaust [OF assms(1-3), of maxSizeKB minSizeKB] assms(4)
  by (simp add: size_message_def)

theorem budget_exhausted_witness:
  "compressImage (example_browser 51200) () (Finite 20) (Finite 40)
   = (Inl (Error ''Could not compress image to be between 20KB and 40KB. Please try a different image.''),
      map quality_at [0..<10])"
  using budget_exhausted [OF example_ready example_too_large_40, where minSizeKB = "Finite 20"]
  by (simp add: example_toString example_toString_def)

text \<open>
  C4, as stated, fails: the qualities are binary64 numbers, and already the third one,
  \<open>(0.9 - 0.1) - 0.1\<close>, is 0.7000000000000001, which is neither 7/10 nor the binary64
  number nearest to it; the difference of two successive qualities is not 0.1 either.
\<close>

theorem quality_sequence_counterexample:
  "snd (compressImage (example_browser 51200) () (Finite 20) (Finite 40)) ! 2 \<noteq> 7 / 10 \<and>
   snd (compressImage (example_browser 51200) () (Finite 20) (Finite 40)) ! 2 \<noteq> fl (7 / 10) \<and>
   snd (compressImage (example_browser 51200) () (Finite 20) (Finite 40)) ! 1
     - snd (compressImage (example_browser 51200) () (Finite 20) (Finite 40)) ! 2 \<noteq> 1 / 10 \<and>
   snd (compressImage (example_browser 51200) () (Finite 20) (Finite 40)) ! 1
     - snd (compressImage (example_browser 51200) () (Finite 20) (Finite 40)) ! 2 \<noteq> fl (1 / 10)"
  by (simp add: example_run_40 quality_list fl_7_10 fl_1_10)

text \<open>
  C4, amended. In every run the qualities handed to the encoder are the first \<open>n\<close>
  members, \<open>n \<le> 10\<close>, of the sequence that starts at the binary64 number 0.9 and
  subtracts the binary64 number 0.1 with binary64 rounding at each retry. The sequence
  is strictly decreasing over the ten attempts, and its \<open>k\<close>-th member differs from
  \<open>0.9 - 0.1 k\<close> by less than \<open>2 powi -52\<close>.
\<close>

theorem quality_sequence:
  "(\<exists>n\<le>10. snd (compressImage B file minSizeKB maxSizeKB) = map quality_at [0..<n]) \<and>
   quality_at 0 = fl (9 / 10) \<and>
   (\<forall>k. quality_at (Suc k) = fl (quality_at k - fl (1 / 10))) \<and>
   (\<forall>k<9. quality_at (Suc k) < quality_at k) \<and>
   (\<forall>k<10. \<bar>quality_at k - (9 - of_nat k) / 10\<bar> < 1 / 2 ^ 52)"
  using encodes_compressImage [of B "file" minSizeKB maxSizeKB] quality_decreasing quality_bounds
  by (simp add: quality_at_0 quality_at_Suc lower_def)

theorem quality_sequence_witness:
  "length (snd (compressImage (example_browser 51200) () (Finite 20) (Finite 40))) = 10 \<and>
   quality_at 3 < quality_at 2 \<and>
   \<bar>quality_at 2 - 7 / 10\<bar> < 1 / 2 ^ 52"
proof -
  from quality_sequence [of "example_browser 51200" "()" "Finite 20" "Finite 40"]
  have d: "\<forall>k<9. quality_at (Suc k) < quality_at k"
    and c: "\<forall>k<10. \<bar>quality_at k - (9 - of_nat k) / 10\<bar> < 1 / 2 ^ 52"
    by blast+
  from d have "2 < (9::nat) \<longrightarrow> quality_at (Suc 2) < quality_at 2" by blast
  moreover from c have "2 < (10::nat) \<longrightarrow> \<bar>quality_at 2 - (9 - of_nat 2) / 10\<bar> < 1 / 2 ^ 52"
    by blast
  ultimately show ?thesis by (simp add: example_run_40)
qed

text \<open>
  C5, as stated, fails: a 500 by 800 image is not resized to 640 by 1024.
\<close>

theorem resize_500_800_counterexample: "resize 500 800 \<noteq> (640, 1024)"
  by (simp add: resize_def to_number_def MAX_HEIGHT_def)

text \<open>
  C5, amended. For a 500 by 800 image the resize step takes the branch for
  \<open>width \<le> height\<close>, whose guard \<open>height > 1024\<close> is false: the dimensions stay 500 by
  800, and so does the canvas.
\<close>

theorem resize_500_800:
  "resize 500 800 = (500, 800) \<and>
   canvas_width (make_canvas \<lparr>img_width = 500, img_height = 800, bitmap = p\<rparr>) = 500 \<and>
   canvas_height (make_canvas \<lparr>img_width = 500, img_height = 800, bitmap = p\<rparr>) = 800"
proof -
  have "resize 500 800 = (500, 800)"
    by (simp add: resize_def to_number_def MAX_HEIGHT_def)
  moreover have "to_uint32 500 = 500" "to_uint32 800 = 800" by (simp_all add: to_uint32_def)
  ultimately show ?thesis by (simp add: canvas_dims)
qed

text \<open>
  C6. For every image the resize step increases neither dimension, neither as numbers
  nor as the canvas's integer dimensions; a 2000 by 1000 image becomes 1024 by 512, of
  the same aspect ratio.
\<close>

theorem resize_never_enlarges:
  "fst (resize (img_width img) (img_height img)) \<le> to_number (img_width img) \<and>
   snd (resize (img_width img) (img_height img)) \<le> to_number (img_height img) \<and>
   canvas_width (make_canvas img) \<le> img_width img \<and>
   canvas_height (make_canvas img) \<le> img_height img \<and>
   resize 2000 1000 = (1024, 512) \<and>
   fst (resize 2000 1000) * 1000 = snd (resize 2000 1000) * 2000 \<and>
   canvas_width (make_canvas (img\<lparr>img_width := 2000, img_height := 1000\<rparr>)) = 1024 \<and>
   canvas_height (make_canvas (img\<lparr>img_width := 2000, img_height := 1000\<rparr>)) = 512"
proof -
  let ?w = "img_width img" and ?h = "img_height img"
  note b = resize_bounds [of ?w ?h]
  have "to_uint32 (fst (resize ?w ?h)) \<le> ?w" using b by (intro to_uint32_le) simp_all
  moreover have "to_uint32 (snd (resize ?w ?h)) \<le> ?h" using b by (intro to_uint32_le) simp_all
  moreover have "to_uint32 1024 = 1024" "to_uint32 512 = 512" by (simp_all add: to_uint32_def)
  ultimately show ?thesis using b by (simp add: canvas_dims resize_2000_1000)
qed

theorem resize_never_enlarges_witness:
  "canvas_width (make_canvas example_image) \<le> 2000 \<and>
   canvas_height (make_canvas example_image) \<le> 1000 \<and>
   canvas_width (make_canvas example_image) = 1024 \<and>
   canvas_height (make_canvas example_image) = 512"
  using resize_never_enlarges [of example_image] by (simp add: example_image_def)

text \<open>
  C7. In every run, every quality handed to the encoder lies between 0 and 1.
\<close>

theorem quality_in_range:
  "\<forall>q\<in>set (snd (compressImage B file minSizeKB maxSizeKB)). 0 \<le> q \<and> q \<le> 1"
proof
  fix q assume q: "q \<in> set (snd (compressImage B file minSizeKB maxSizeKB))"
  obtain n where n: "n \<le> 10"
    and s: "snd (compressImage B file minSizeKB maxSizeKB) = map quality_at [0..<n]"
    using encodes_compressImage [of B "file" minSizeKB maxSizeKB] by blast
  from q obtain i where "i < n" and qi: "q = quality_at i" unfolding s by auto
  with n have "i < 10" by simp
  with quality_bounds have "0 \<le> quality_at i \<and> quality_at i \<le> 1" by blast
  then show "0 \<le> q \<and> q \<le> 1" by (simp add: qi)
qed

theorem quality_in_range_witness:
  "snd (compressImage (example_browser 0) () (Finite 20) (Finite 50))
     = map quality_at [0..<5] \<and>
   0 \<le> quality_at 4 \<and> quality_at 4 \<le> 1"
proof -
  have "quality_at 4 \<in> set (map quality_at [0..<5])" by simp
  then have "quality_at 4 \<in> set (snd (compressImage (example_browser 0) () (Finite 20) (Finite 50)))"
    by (simp only: example_run_50 snd_conv)
  with quality_in_range [of "example_browser 0" "()" "Finite 20" "Finite 50"]
  have "0 \<le> quality_at 4 \<and> quality_at 4 \<le> 1" by blast
  then show ?thesis by (simp add: example_run_50)
qed

text \<open>
  C8. When the file is read but does not load as an image, \<open>compressImage\<close> rejects
  with the image's error event, and the encoder is never called.
\<close>

theorem decode_failure:
  assumes "readAsDataURL B file = Some url" and "loadImage B url = None"
  shows "compressImage B file minSizeKB maxSizeKB = (Inl ImageErrorEvent, [])"
  using assms by (simp add: compressImage_def)

theorem decode_failure_witness:
  "compressImage (example_browser 0\<lparr>loadImage := \<lambda>url. None\<rparr>) () (Finite 20) (Finite 50)
   = (Inl ImageErrorEvent, [])"
  using decode_failure [of "example_browser 0\<lparr>loadImage := \<lambda>url. None\<rparr>" "()"
      "''data:image/png;base64,iVBORw0KGgo=''" "Finite 20" "Finite 50"]
  by (simp add: example_browser_def)

text \<open>
  C9. When the width and the height of the image are both at most 1024, the resize step
  leaves both unchanged, and the canvas has exactly the dimensions of the image; so for
  500 by 800.
\<close>

theorem small_image_unchanged:
  assumes "img_width img \<le> 1024" and "img_height img \<le> 1024"
  shows "resize (img_width img) (img_height img)
           = (to_number (img_width img), to_number (img_height img)) \<and>
         canvas_width (make_canvas img) = img_width img \<and>
         canvas_height (make_canvas img) = img_height img"
proof -
  have w: "to_number (img_width img) \<le> 1024"
    using assms(1) by (simp add: to_number_def word_le_nat_alt del: of_nat_unat)
  have h: "to_number (img_height img) \<le> 1024"
    using assms(2) by (simp add: to_number_def word_le_nat_alt del: of_nat_unat)
  have "resize (img_width img) (img_height img)
           = (to_number (img_width img), to_number (img_height img))"
    using w h by (simp add: resize_def Let_def MAX_WIDTH_def MAX_HEIGHT_def)
  then show ?thesis by (simp add: canvas_dims to_uint32_to_number)
qed

theorem small_image_unchanged_witness:
  "resize 500 800 = (500, 800) \<and>
   canvas_width (make_canvas \<lparr>img_width = 500, img_height = 800, bitmap = ()\<rparr>) = 500 \<and>
   canvas_height (make_canvas \<lparr>img_width = 500, img_height = 800, bitmap = ()\<rparr>) = 800"
  using small_image_unchanged [of "\<lparr>img_width = 500, img_height = 800, bitmap = ()\<rparr>"]
  by (simp add: to_number_def)

text \<open>
  C10. When \<open>minSizeKB > maxSizeKB\<close> and the encoder yields a blob on every attempt,
  the branch for a size within the range is never taken; \<open>compressImage\<close> resolves
  with the first attempt whose size is at most \<open>maxSizeKB\<close>, through the branch for a
  size below \<open>minSizeKB\<close>, or else, all ten attempts being too large, rejects with the
  error about the size window. (\<open>compressImage\<close> is a total function: every run ends.)
\<close>

theorem inverted_window:
  assumes "readAsDataURL B file = Some url" and "loadImage B url = Some img" and "getContext B"
    and inv: "js_gt minSizeKB maxSizeKB"
    and enc: "\<forall>i<10. toBlob B (make_canvas img) (quality_at i) \<noteq> None"
  shows "(\<forall>s. branch_of (Finite s) minSizeKB maxSizeKB \<noteq> WithinRange) \<and>
         ((\<exists>k<10. \<exists>blob.
             (\<forall>i<k. too_large B (make_canvas img) maxSizeKB (quality_at i)) \<and>
             toBlob B (make_canvas img) (quality_at k) = Some blob \<and>
             js_le (sizeKB B blob) maxSizeKB \<and>
             branch_of (sizeKB B blob) minSizeKB maxSizeKB = TooSmall \<and>
             compressImage B file minSizeKB maxSizeKB
               = (Inr (blob_dataURL B blob), map quality_at [0..<Suc k]))
          \<or>
          ((\<forall>i<10. too_large B (make_canvas img) maxSizeKB (quality_at i)) \<and>
           compressImage B file minSizeKB maxSizeKB
             = (Inl (Error (size_message B minSizeKB maxSizeKB)), map quality_at [0..<10])))"
proof -
  let ?c = "make_canvas img"
  have unreachable: "\<forall>s. branch_of (Finite s) minSizeKB maxSizeKB \<noteq> WithinRange"
    using inv by (simp add: inverted_branch)
  have nan: "maxSizeKB \<noteq> NaN" using inv by (cases minSizeKB) (auto simp: js_gt_def)
  show ?thesis
  proof (cases "\<forall>i<10. too_large B ?c maxSizeKB (quality_at i)")
    case True
    then have "compressImage B file minSizeKB maxSizeKB
               = (Inl (Error (size_message B minSizeKB maxSizeKB)), map quality_at [0..<10])"
      using assms(1-3) by (intro compressImage_exhaust) auto
    with True unreachable show ?thesis by blast
  next
    case False
    then obtain j where j: "j < 10" and "\<not> too_large B ?c maxSizeKB (quality_at j)" by blast
    then obtain k where kj: "k \<le> j" and nk: "\<not> too_large B ?c maxSizeKB (quality_at k)"
      and before: "\<forall>i<k. too_large B ?c maxSizeKB (quality_at i)"
      using first_not_too_large [of B ?c maxSizeKB j] by blast
    have k: "k < 10" using kj j by simp
    with enc obtain blob where b: "toBlob B ?c (quality_at k) = Some blob" by blast
    have ng: "\<not> js_gt (sizeKB B blob) maxSizeKB" using nk b by (simp add: too_large_def)
    then have le: "js_le (sizeKB B blob) maxSizeKB" using nan by (simp add: sizeKB_def js_le_Finite)
    have "branch_of (sizeKB B blob) minSizeKB maxSizeKB \<noteq> TooLarge"
      using ng by (simp add: branch_TooLarge)
    moreover have "branch_of (sizeKB B blob) minSizeKB maxSizeKB \<noteq> WithinRange"
      using inv unfolding sizeKB_def by (rule inverted_branch)
    ultimately have small: "branch_of (sizeKB B blob) minSizeKB maxSizeKB = TooSmall"
      by (cases "branch_of (sizeKB B blob) minSizeKB maxSizeKB") simp_all
    have "compressImage B file minSizeKB maxSizeKB
          = (Inr (blob_dataURL B blob), map quality_at [0..<Suc k])"
      using assms(1-3) k before b ng by (intro compressImage_accept) auto
    with k before b le small unreachable show ?thesis by blast
  qed
qed

theorem inverted_window_witness:
  "compressImage (example_browser 0) () (Finite 50) (Finite 20)
     = (Inr ''data:image/jpeg;base64,c21hbGw='', map quality_at [0..<8]) \<and>
   branch_of (sizeKB (example_browser 0) 20480) (Finite 50) (Finite 20) = TooSmall"
proof -
  let ?B = "example_browser 0"
  let ?c = "make_canvas example_image"
  have 1: "js_gt (Finite 50) (Finite 20)" by (simp add: js_gt_def)
  have 2: "\<forall>i<10. toBlob ?B ?c (quality_at i) \<noteq> None" by (simp add: example_toBlob)
  have "\<forall>i\<in>set [0..<10]. too_large ?B ?c (Finite 20) (quality_at i) = (i < 7)"
    by (simp add: upt_10 quality_values too_large_def example_toBlob floor_rat_numeral
        example_sizeKB fl_numeral fl_0 js_gt_def)
  then have tl: "too_large ?B ?c (Finite 20) (quality_at i) = (i < 7)" if "i < 10" for i
    using that by simp
  have b7: "toBlob ?B ?c (quality_at 7) = Some 20480"
    by (simp add: example_toBlob quality_values floor_rat_numeral)
  from inverted_window [OF example_ready 1 2]
  have "(\<exists>k<10. \<exists>blob.
             (\<forall>i<k. too_large ?B ?c (Finite 20) (quality_at i)) \<and>
             toBlob ?B ?c (quality_at k) = Some blob \<and>
             js_le (sizeKB ?B blob) (Finite 20) \<and>
             branch_of (sizeKB ?B blob) (Finite 50) (Finite 20) = TooSmall \<and>
             compressImage ?B () (Finite 50) (Finite 20)
               = (Inr (blob_dataURL ?B blob), map quality_at [0..<Suc k]))
          \<or>
          ((\<forall>i<10. too_large ?B ?c (Finite 20) (quality_at i)) \<and>
           compressImage ?B () (Finite 50) (Finite 20)
             = (Inl (Error (size_message ?B (Finite 50) (Finite 20))), map quality_at [0..<10]))"
    by blast
  moreover have "\<not> (\<forall>i<10. too_large ?B ?c (Finite 20) (quality_at i))"
  proof
    assume "\<forall>i<10. too_large ?B ?c (Finite 20) (quality_at i)"
    then have "too_large ?B ?c (Finite 20) (quality_at 7)" by simp
    then show False using tl [of 7] by simp
  qed
  ultimately obtain k blob where k: "k < 10"
    and before: "\<forall>i<k. too_large ?B ?c (Finite 20) (quality_at i)"
    and b: "toBlob ?B ?c (quality_at k) = Some blob"
    and le: "js_le (sizeKB ?B blob) (Finite 20)"
    and small: "branch_of (sizeKB ?B blob) (Finite 50) (Finite 20) = TooSmall"
    and r: "compressImage ?B () (Finite 50) (Finite 20)
               = (Inr (blob_dataURL ?B blob), map quality_at [0..<Suc k])"
    by blast
  have "\<not> too_large ?B ?c (Finite 20) (quality_at k)"
    using b le by (simp add: too_large_def sizeKB_def js_le_Finite)
  then have "\<not> k < 7" using tl [OF k] by simp
  moreover have "\<not> 7 < k"
  proof
    assume "7 < k"
    with before have "too_large ?B ?c (Finite 20) (quality_at 7)" by simp
    then show False using tl [of 7] by simp
  qed
  ultimately have "k = 7" by simp
  with b b7 have "blob = 20480" by simp
  with r small \<open>k = 7\<close> show ?thesis by (simp add: example_dataURL)
qed

end
